theory Spec2Isabelle
  imports Complex_Main "HOL-Library.Word" "HOL-Library.Multiset" "HOL-Library.Sublist"
begin

unbundle bit_operations_syntax

section \<open>Values of the program\<close>

text \<open>
  A JavaScript string is a sequence of UTF-16 code units (the word lists of the game are
  Chinese), so \<open>charCodeAt\<close> reads one element. Bitwise operators and \<open>Math.imul\<close> work on
  32-bit integers: \<open>x | 0\<close> and \<open>x >>> 0\<close> keep the 32 bits and only change how they are
  read, so one type of 32-bit words serves for both readings.
\<close>

type_synonym u32 = "32 word"
type_synonym jsstring = "16 word list"

definition ascii :: "string \<Rightarrow> jsstring" where
  "ascii s = map (\<lambda>c. of_nat (of_char c)) s"

section \<open>The seeded random source\<close>

text \<open>
  \<open>mulberry32(seed)\<close> returns a closure over the variable \<open>a\<close>, initialised to
  \<open>seed >>> 0\<close>. The closure is modelled by its state (the value of \<open>a\<close>) and by
  \<open>mulberry32_next\<close>, one call of the closure: it gives the number returned and the new
  value of \<open>a\<close>. The number returned is an unsigned 32-bit integer divided by \<open>2^32\<close>,
  which a double holds exactly, so it is modelled as that real number.
\<close>

definition mulberry32 :: "u32 \<Rightarrow> u32" where
  "mulberry32 seed = seed"

definition mulberry32_next :: "u32 \<Rightarrow> real \<times> u32" where
  "mulberry32_next a0 =
     (let a = a0 + 0x6d2b79f5;
          t = (a XOR drop_bit 15 a) * (1 OR a);
          t = (t + (t XOR drop_bit 7 t) * (61 OR t)) XOR t
      in (real_of_int (uint (t XOR drop_bit 14 t)) / 4294967296, a))"

text \<open>A random source in general: a state and a function for one call of \<open>rnd()\<close>.\<close>

type_synonym 'g rnd = "'g \<Rightarrow> real \<times> 'g"

definition after_calls :: "'g rnd \<Rightarrow> nat \<Rightarrow> 'g \<Rightarrow> 'g" where
  "after_calls rnd k g = ((\<lambda>s. snd (rnd s)) ^^ k) g"

definition nth_value :: "'g rnd \<Rightarrow> 'g \<Rightarrow> nat \<Rightarrow> real" where
  "nth_value rnd g k = fst (rnd (after_calls rnd k g))"

section \<open>Arrays and the store\<close>

text \<open>
  A JavaScript array is its \<open>length\<close> and its properties. \<open>item a k\<close> is what \<open>a[k]\<close>
  reads, with \<open>None\<close> for \<open>undefined\<close>: a read out of range gives \<open>undefined\<close>, a
  negative key is an ordinary property that does not count for the length, and a write at
  an index beyond the end extends the array (\<open>put\<close>). \<open>elems\<close> lists \<open>a[0]\<close> to
  \<open>a[length - 1]\<close>, which is what iteration, spreading and \<open>shift\<close> see.
\<close>

record 'a jsarray =
  len :: nat
  item :: "int \<Rightarrow> 'a option"

definition of_list :: "'a list \<Rightarrow> 'a jsarray" where
  "of_list xs =
     \<lparr>len = length xs,
      item = (\<lambda>k. if 0 \<le> k \<and> k < int (length xs) then Some (xs ! nat k) else None)\<rparr>"

definition elems :: "'a jsarray \<Rightarrow> 'a option list" where
  "elems a = map (\<lambda>k. item a (int k)) [0..<len a]"

definition put :: "'a jsarray \<Rightarrow> int \<Rightarrow> 'a option \<Rightarrow> 'a jsarray" where
  "put a k v =
     \<lparr>len = (if int (len a) \<le> k \<and> k < 4294967295 then nat k + 1 else len a),
      item = (item a)(k := v)\<rparr>"

text \<open>\<open>[...arr]\<close>: a new array of the elements of \<open>arr\<close>.\<close>

definition spread :: "'a jsarray \<Rightarrow> 'a jsarray" where
  "spread a =
     \<lparr>len = len a,
      item = (\<lambda>k. if 0 \<le> k \<and> k < int (len a) then item a k else None)\<rparr>"

text \<open>
  Arrays are objects, held by reference. The store maps a reference to the array it
  denotes; references below \<open>fresh\<close> are in use, and a new array gets the reference
  \<open>fresh\<close> itself.
\<close>

record 'a heap =
  cells :: "nat \<Rightarrow> 'a jsarray"
  fresh :: nat

definition alloc :: "'a jsarray \<Rightarrow> 'a heap \<Rightarrow> nat \<times> 'a heap" where
  "alloc a h = (fresh h, \<lparr>cells = (cells h)(fresh h := a), fresh = Suc (fresh h)\<rparr>)"

definition assign :: "nat \<Rightarrow> int \<Rightarrow> 'a option \<Rightarrow> 'a heap \<Rightarrow> 'a heap" where
  "assign p k v h = h\<lparr>cells := (cells h)(p := put (cells h p) k v)\<rparr>"

text \<open>
  \<open>[a[i], a[j]] = [a[j], a[i]]\<close>: both reads come first, then \<open>a[i]\<close> is written, then
  \<open>a[j]\<close>.
\<close>

definition swap :: "nat \<Rightarrow> int \<Rightarrow> int \<Rightarrow> 'a heap \<Rightarrow> 'a heap" where
  "swap a i j h =
     (let x = item (cells h a) j;
          y = item (cells h a) i
      in assign a j y (assign a i x h))"

section \<open>Shuffle\<close>

text \<open>
  \<open>shuffle(arr, rnd)\<close>. The loop variable starts at \<open>a.length - 1\<close>, read once, and the
  body runs for \<open>i\<close> down to 1; on an empty array \<open>i\<close> starts at \<open>-1\<close> and the body never
  runs, as with the truncated subtraction here. \<open>Math.floor(rnd() * (i + 1))\<close> is modelled
  on the real numbers: the type has no NaN and no infinity, and the product is not
  rounded (a value of \<open>mulberry32\<close> times \<open>i + 1\<close> is exact in a double while the array
  has fewer than \<open>2^21\<close> elements).
\<close>

fun shuffle_loop :: "'g rnd \<Rightarrow> nat \<Rightarrow> nat \<Rightarrow> 'a heap \<Rightarrow> 'g \<Rightarrow> 'a heap \<times> 'g" where
  "shuffle_loop rnd a 0 h g = (h, g)"
| "shuffle_loop rnd a (Suc n) h g =
     (let i = int (Suc n);
          (r, g') = rnd g;
          j = \<lfloor>r * (real_of_int i + 1)\<rfloor>
      in shuffle_loop rnd a n (swap a i j h) g')"

definition shuffle :: "nat \<Rightarrow> 'g rnd \<Rightarrow> 'a heap \<Rightarrow> 'g \<Rightarrow> nat \<times> 'a heap \<times> 'g" where
  "shuffle arr rnd h g =
     (let (a, h) = alloc (spread (cells h arr)) h;
          (h, g) = shuffle_loop rnd a (len (cells h a) - 1) h g
      in (a, h, g))"

text \<open>
  A call of \<open>shuffle\<close> on an array whose elements are \<open>arr\<close>, seen from a caller that only
  reads the elements of the result: the elements of the returned array and the state of
  the random source afterwards.
\<close>

definition shuffled :: "'a list \<Rightarrow> 'g rnd \<Rightarrow> 'g \<Rightarrow> 'a option list \<times> 'g" where
  "shuffled arr rnd g =
     (let (a, h, g) = shuffle 0 rnd \<lparr>cells = (\<lambda>_. of_list arr), fresh = 1\<rparr> g
      in (elems (cells h a), g))"

text \<open>
  The Fisher-Yates shuffle as the specification words it, on lists: for the positions
  \<open>n\<close> down to 1, swap the element at the position with the one at the index picked for
  it.
\<close>

fun fisher_yates :: "(nat \<Rightarrow> nat) \<Rightarrow> nat \<Rightarrow> 'a list \<Rightarrow> 'a list" where
  "fisher_yates pick 0 xs = xs"
| "fisher_yates pick (Suc n) xs =
     fisher_yates pick n (xs[Suc n := xs ! pick (Suc n), pick (Suc n) := xs ! Suc n])"

section \<open>Seed, hash and colour\<close>

text \<open>
  Numbers are written in decimal by template literals; \<open>dec\<close> does it for the natural
  numbers the program formats (the parts of a date, an HTTP status).
\<close>

fun dec :: "nat \<Rightarrow> jsstring" where
  "dec n = (if n < 10 then [of_nat (48 + n)] else dec (n div 10) @ [of_nat (48 + n mod 10)])"

declare dec.simps [simp del]

text \<open>
  \<open>computeSeed()\<close> reads the clock and \<open>Math.random()\<close>. Both are inputs here: the date
  (\<open>getFullYear()\<close>, \<open>getMonth()\<close>, which counts from 0, and \<open>getDate()\<close>) and \<open>noise\<close>,
  the value of \<open>Math.floor(Math.random() * 1e9)\<close>.
\<close>

record date =
  year :: nat
  month :: nat
  day :: nat

definition computeSeed :: "date \<Rightarrow> nat \<Rightarrow> u32" where
  "computeSeed d noise =
     (let key = dec (year d) @ ascii ''-'' @ dec (month d + 1) @ ascii ''-'' @ dec (day d);
          h = fold (\<lambda>c h. (h XOR ucast c) * 16777619) key 2166136261
      in h XOR of_nat noise)"

definition hashStringToInt :: "jsstring \<Rightarrow> nat" where
  "hashStringToInt s = unat (fold (\<lambda>c h. (h XOR ucast c) * 16777619) s (2166136261 :: u32))"

definition WORD_COLORS :: "jsstring list" where
  "WORD_COLORS =
     [ascii ''#FF6B6B'', ascii ''#FF8A00'', ascii ''#FFB703'', ascii ''#43AA8B'',
      ascii ''#00B4D8'', ascii ''#3A86FF'', ascii ''#8338EC'', ascii ''#FF4D9D'',
      ascii ''#F72585'', ascii ''#2A9D8F'']"

text \<open>The salt is a count, a natural number, so the index is below the length.\<close>

definition pickColor :: "jsstring \<Rightarrow> nat \<Rightarrow> jsstring" where
  "pickColor w salt = WORD_COLORS ! ((hashStringToInt w + salt) mod length WORD_COLORS)"

section \<open>The deck\<close>

text \<open>
  The state that \<open>resetDeck\<close> and \<open>dealNext\<close> write: the two refs, the React state set
  by \<open>setWord\<close> and \<open>setWordColor\<close>, and the number of seeds computed so far. An element
  of the queue is a string or \<open>undefined\<close> (\<open>None\<close>). What they only read is a parameter:
  the word list \<open>ws\<close>, the counters of the render they were made in, and \<open>env\<close>, which
  gives the date and the noise that the call number \<open>k\<close> of \<open>computeSeed\<close> reads.
\<close>

record session =
  usedRef :: "jsstring set"
  queueRef :: "jsstring option list"
  word :: "jsstring option"
  wordColor :: jsstring
  seeds :: nat

record counters =
  flipKey :: nat
  correct :: nat
  wrong :: nat

type_synonym env = "nat \<Rightarrow> date \<times> nat"

definition resetDeck :: "env \<Rightarrow> jsstring list \<Rightarrow> session \<Rightarrow> session" where
  "resetDeck env ws s =
     (let rnd = mulberry32 (case env (seeds s) of (d, noise) \<Rightarrow> computeSeed d noise)
      in s\<lparr>usedRef := {},
            queueRef := fst (shuffled ws mulberry32_next rnd),
            seeds := Suc (seeds s)\<rparr>)"

text \<open>
  The \<open>while\<close> loop of \<open>dealNext\<close>: shift words off the queue up to the first one that
  the used set does not have. It gives \<open>next\<close> (\<open>None\<close> for the initial \<open>null\<close>, and for
  \<open>undefined\<close>) and what is left of the queue. The set holds strings only, so it does not
  have \<open>undefined\<close>.
\<close>

definition has :: "jsstring set \<Rightarrow> jsstring option \<Rightarrow> bool" where
  "has used w = (case w of None \<Rightarrow> False | Some v \<Rightarrow> v \<in> used)"

fun dealNext_loop :: "jsstring set \<Rightarrow> jsstring option list \<Rightarrow> jsstring option \<times> jsstring option list" where
  "dealNext_loop used [] = (None, [])"
| "dealNext_loop used (w # q) = (if \<not> has used w then (w, q) else dealNext_loop used q)"

text \<open>\<open>if (next)\<close>: \<open>null\<close>, \<open>undefined\<close> and the empty string are falsy.\<close>

definition truthy :: "jsstring option \<Rightarrow> bool" where
  "truthy v = (case v of None \<Rightarrow> False | Some w \<Rightarrow> w \<noteq> [])"

text \<open>
  \<open>dealNext(saltOverride)\<close>. The function calls itself after a reset, with nothing in the
  code that bounds the depth, so the model counts calls: the first argument is the number
  of nested calls allowed, and \<open>None\<close> says that they were not enough.
\<close>

fun dealNext :: "env \<Rightarrow> jsstring list \<Rightarrow> counters \<Rightarrow> nat \<Rightarrow> nat option \<Rightarrow> session \<Rightarrow> session option" where
  "dealNext env ws c 0 saltOverride s = None"
| "dealNext env ws c (Suc depth) saltOverride s =
     (if ws = [] then Some s
      else
        let s = (if queueRef s = [] then resetDeck env ws s else s);
            (next, q) = dealNext_loop (usedRef s) (queueRef s);
            s = s\<lparr>queueRef := q\<rparr>;
            salt = (case saltOverride of Some n \<Rightarrow> n
                    | None \<Rightarrow> flipKey c + correct c * 3 + wrong c * 7)
        in if truthy next
           then Some (s\<lparr>usedRef := insert (the next) (usedRef s),
                        word := next,
                        wordColor := pickColor (the next) salt\<rparr>)
           else dealNext env ws c depth (Some salt) (resetDeck env ws s))"

text \<open>
  A sequence of calls of \<open>dealNext\<close>, one for each element of the list (the counters of
  the render and the argument of the call), with the word shown after each call.
\<close>

fun deals :: "env \<Rightarrow> jsstring list \<Rightarrow> nat \<Rightarrow> (counters \<times> nat option) list \<Rightarrow> session
    \<Rightarrow> (jsstring option list \<times> session) option" where
  "deals env ws depth [] s = Some ([], s)"
| "deals env ws depth (call # calls) s =
     (case dealNext env ws (fst call) depth (snd call) s of
        None \<Rightarrow> None
      | Some s' \<Rightarrow>
          (case deals env ws depth calls s' of
             None \<Rightarrow> None
           | Some (shown, s'') \<Rightarrow> Some (word s' # shown, s'')))"

text \<open>
  The invariant of a cycle, for the proofs: \<open>dealt\<close> are the words dealt since the last
  reset, in order. The used set is the set of them, none was dealt twice, the queue holds
  words of the list only, and every word of the list not dealt yet is still in the queue.
\<close>

definition deck_inv :: "jsstring list \<Rightarrow> session \<Rightarrow> jsstring list \<Rightarrow> bool" where
  "deck_inv ws s dealt \<longleftrightarrow>
     (\<exists>q. queueRef s = map Some q \<and> set q \<subseteq> set ws \<and> set ws \<subseteq> set dealt \<union> set q)
     \<and> usedRef s = set dealt \<and> distinct dealt \<and> set dealt \<subseteq> set ws"

text \<open>
  The refs and the state as the component creates them, and an environment for the
  examples: the 3rd of November 2026 and the noise 2 at every call of \<open>computeSeed\<close>.
\<close>

definition initial :: session where
  "initial =
     \<lparr>usedRef = {}, queueRef = [], word = None, wordColor = ascii ''#111827'', seeds = 0\<rparr>"

definition demo_env :: env where
  "demo_env k = (\<lparr>year = 2026, month = 10, day = 3\<rparr>, 2)"

section \<open>Loading a dictionary\<close>

text \<open>
  A parsed JSON value. A number is kept as the text that \<open>String\<close> gives for it, the only
  thing the program does with one. In an object a later entry for a key wins, as in
  \<open>JSON.parse\<close>.
\<close>

datatype json =
  JNull
  | JBool bool
  | JNum jsstring
  | JStr jsstring
  | JArr "json list"
  | JObj "(jsstring \<times> json) list"

text \<open>\<open>json?.key\<close>: only an object has the properties asked for here.\<close>

definition field :: "json \<Rightarrow> jsstring \<Rightarrow> json option" where
  "field j k = (case j of JObj kvs \<Rightarrow> map_of (rev kvs) k | _ \<Rightarrow> None)"

fun join :: "jsstring list \<Rightarrow> jsstring" where
  "join [] = []"
| "join [x] = x"
| "join (x # y # ys) = x @ ascii '','' @ join (y # ys)"

text \<open>
  \<open>String(w)\<close>. An array is joined with commas, where \<open>null\<close> gives the empty string.
\<close>

fun toString :: "json \<Rightarrow> jsstring" where
  "toString JNull = ascii ''null''"
| "toString (JBool b) = (if b then ascii ''true'' else ascii ''false'')"
| "toString (JNum n) = n"
| "toString (JStr s) = s"
| "toString (JArr xs) = join (map (\<lambda>x. if x = JNull then [] else toString x) xs)"
| "toString (JObj kvs) = ascii ''[object Object]''"

text \<open>
  \<open>trim()\<close> removes the white space and line terminators of ECMAScript from both ends.
\<close>

definition isWhite :: "16 word \<Rightarrow> bool" where
  "isWhite c \<longleftrightarrow>
     c \<in> {0x9, 0xA, 0xB, 0xC, 0xD, 0x20, 0xA0, 0x1680, 0x2028, 0x2029, 0x202F, 0x205F,
          0x3000, 0xFEFF}
     \<or> (0x2000 \<le> c \<and> c \<le> 0x200A)"

definition trim :: "jsstring \<Rightarrow> jsstring" where
  "trim s = rev (dropWhile isWhite (rev (dropWhile isWhite s)))"

text \<open>
  The response of \<open>fetch\<close>: \<open>body\<close> is what \<open>res.json()\<close> gives, \<open>None\<close> when the body is
  not JSON and the call rejects. \<open>fetch\<close> itself is a parameter of \<open>loadDict\<close>; it rejects
  when the network fails.
\<close>

record response =
  ok :: bool
  status :: nat
  body :: "json option"

datatype error = TypeError | SyntaxError | Error jsstring

record dict =
  name :: jsstring
  words :: "jsstring list"

text \<open>The two messages: \<open>\<^verbatim>\<open>load failed: URL (STATUS)\<close>\<close> and \<open>\<^verbatim>\<open>empty list: URL\<close>\<close>, in Chinese.\<close>

definition load_failed :: "jsstring \<Rightarrow> nat \<Rightarrow> jsstring" where
  "load_failed url st =
     [0x52A0, 0x8F7D, 0x5931, 0x8D25, 0xFF1A] @ url @ [0xFF08] @ dec st @ [0xFF09]"

definition dict_empty :: "jsstring \<Rightarrow> jsstring" where
  "dict_empty url = [0x8BCD, 0x5E93, 0x4E3A, 0x7A7A, 0xFF1A] @ url"

definition loadDict :: "(jsstring \<Rightarrow> error + response) \<Rightarrow> jsstring \<Rightarrow> error + dict" where
  "loadDict fetch url =
     (case fetch url of
        Inl e \<Rightarrow> Inl e
      | Inr res \<Rightarrow>
          if \<not> ok res then Inl (Error (load_failed url (status res)))
          else
            (case body res of
               None \<Rightarrow> Inl SyntaxError
             | Some json \<Rightarrow>
                 let name = (case field json (ascii ''name'') of
                               Some (JStr n) \<Rightarrow> n
                             | _ \<Rightarrow> [0x8BCD, 0x5E93]);
                     words = (case field json (ascii ''words'') of
                                Some (JArr ws) \<Rightarrow> ws
                              | _ \<Rightarrow> []);
                     cleaned = filter (\<lambda>w. length w > 0) (map (\<lambda>w. trim (toString w)) words)
                 in if length cleaned = 0 then Inl (Error (dict_empty url))
                    else Inr \<lparr>name = name, words = cleaned\<rparr>))"

section \<open>Properties of the random source\<close>

lemma fraction_range:
  "0 \<le> n \<Longrightarrow> n < 4294967296 \<Longrightarrow>
   0 \<le> real_of_int n / 4294967296 \<and> real_of_int n / 4294967296 < 1"
  by simp

lemma u32_fraction_range:
  "0 \<le> real_of_int (uint (u :: u32)) / 4294967296
   \<and> real_of_int (uint u) / 4294967296 < 1"
proof -
  have "uint u < 4294967296"
    using unsigned_less [of u, where ?'a = int] by simp
  moreover have "0 \<le> uint u"
    by simp
  ultimately show ?thesis
    by (intro fraction_range)
qed

lemma mulberry32_next_fraction:
  "\<exists>u :: u32. fst (mulberry32_next a) = real_of_int (uint u) / 4294967296"
  unfolding mulberry32_next_def Let_def fst_conv by (rule exI) (rule refl)

lemma mulberry32_next_range:
  "0 \<le> fst (mulberry32_next a) \<and> fst (mulberry32_next a) < 1"
proof -
  obtain u :: u32 where "fst (mulberry32_next a) = real_of_int (uint u) / 4294967296"
    using mulberry32_next_fraction by blast
  then show ?thesis
    using u32_fraction_range [of u] by simp
qed

text \<open>
  Claim C8. For every 32-bit seed, every value the generator of \<open>mulberry32\<close> produces,
  at whatever position of its sequence, is at least 0 and strictly less than 1; it is an
  unsigned 32-bit integer divided by \<open>2^32\<close>.
\<close>

theorem mulberry32_values_in_unit_interval:
  "0 \<le> nth_value mulberry32_next (mulberry32 seed) k
   \<and> nth_value mulberry32_next (mulberry32 seed) k < 1
   \<and> (\<exists>u :: u32. nth_value mulberry32_next (mulberry32 seed) k = real_of_int (uint u) / 2 ^ 32)"
proof -
  have "\<exists>u :: u32. nth_value mulberry32_next (mulberry32 seed) k = real_of_int (uint u) / 2 ^ 32"
    using mulberry32_next_fraction [of "after_calls mulberry32_next k (mulberry32 seed)"]
    by (simp add: nth_value_def)
  then show ?thesis
    using mulberry32_next_range [of "after_calls mulberry32_next k (mulberry32 seed)"]
    by (simp add: nth_value_def)
qed

section \<open>Properties of arrays and of the shuffle loop\<close>

lemma length_elems [simp]: "length (elems a) = len a"
  by (simp add: elems_def)

lemma nth_elems: "k < len a \<Longrightarrow> elems a ! k = item a (int k)"
  by (simp add: elems_def)

lemma elems_of_list: "elems (of_list xs) = map Some xs"
  by (rule nth_equalityI) (simp_all add: elems_def of_list_def)

lemma len_of_list [simp]: "len (of_list xs) = length xs"
  by (simp add: of_list_def)

lemma len_spread [simp]: "len (spread a) = len a"
  by (simp add: spread_def)

lemma elems_spread [simp]: "elems (spread a) = elems a"
  by (rule nth_equalityI) (simp_all add: elems_def spread_def)

lemma len_put_inside: "0 \<le> k \<Longrightarrow> k < int (len a) \<Longrightarrow> len (put a k v) = len a"
  by (simp add: put_def)

lemma elems_put_inside:
  "0 \<le> k \<Longrightarrow> k < int (len a) \<Longrightarrow> elems (put a k v) = (elems a)[nat k := v]"
  by (rule nth_equalityI) (auto simp: elems_def put_def nth_list_update)

lemma fresh_swap [simp]: "fresh (swap a i j h) = fresh h"
  by (simp add: swap_def assign_def Let_def)

lemma cells_swap_other: "p \<noteq> a \<Longrightarrow> cells (swap a i j h) p = cells h p"
  by (simp add: swap_def assign_def Let_def)

lemma swap_inside:
  assumes "0 \<le> i" "i < int (len (cells h a))" "0 \<le> j" "j < int (len (cells h a))"
  shows "len (cells (swap a i j h) a) = len (cells h a)"
    and "elems (cells (swap a i j h) a) =
           (elems (cells h a))[nat i := elems (cells h a) ! nat j,
                               nat j := elems (cells h a) ! nat i]"
  using assms
  by (simp_all add: swap_def assign_def Let_def len_put_inside elems_put_inside nth_elems)

lemma shuffle_loop_frame:
  "p \<noteq> a \<Longrightarrow> cells (fst (shuffle_loop rnd a n h g)) p = cells h p"
  by (induction n arbitrary: h g) (simp_all add: Let_def split_beta cells_swap_other)

lemma shuffle_loop_fresh: "fresh (fst (shuffle_loop rnd a n h g)) = fresh h"
  by (induction n arbitrary: h g) (simp_all add: Let_def split_beta)

lemma after_calls_Suc: "after_calls rnd (Suc k) g = after_calls rnd k (snd (rnd g))"
  by (simp only: after_calls_def funpow_Suc_right o_apply)

lemma after_calls_0 [simp]: "after_calls rnd 0 g = g"
  by (simp add: after_calls_def)

lemma nth_value_0: "nth_value rnd g 0 = fst (rnd g)"
  by (simp add: nth_value_def)

lemma nth_value_Suc: "nth_value rnd g (Suc k) = nth_value rnd (snd (rnd g)) k"
  by (simp add: nth_value_def after_calls_Suc)

lemma shuffle_loop_source: "snd (shuffle_loop rnd a n h g) = after_calls rnd n g"
  by (induction n arbitrary: h g) (simp_all add: Let_def split_beta after_calls_Suc)

lemma floor_pick_range:
  assumes "0 \<le> r" "r < 1" "0 \<le> m"
  shows "0 \<le> \<lfloor>r * (real_of_int m + 1)\<rfloor>" and "\<lfloor>r * (real_of_int m + 1)\<rfloor> \<le> m"
proof -
  have pos: "0 < real_of_int m + 1"
    using assms(3) by linarith
  have "0 \<le> r * (real_of_int m + 1)"
    using assms(1) pos by simp
  then show "0 \<le> \<lfloor>r * (real_of_int m + 1)\<rfloor>"
    by simp
  have "r * (real_of_int m + 1) < 1 * (real_of_int m + 1)"
    using assms(2) pos by (intro mult_strict_right_mono)
  then have "r * (real_of_int m + 1) < real_of_int (m + 1)"
    by simp
  then have "\<lfloor>r * (real_of_int m + 1)\<rfloor> < m + 1"
    by (simp only: floor_less_iff)
  then show "\<lfloor>r * (real_of_int m + 1)\<rfloor> \<le> m"
    by simp
qed

lemma fisher_yates_cong:
  "(\<And>i. 1 \<le> i \<Longrightarrow> i \<le> n \<Longrightarrow> pick i = pick' i) \<Longrightarrow>
   fisher_yates pick n xs = fisher_yates pick' n xs"
  by (induction n arbitrary: xs) simp_all

lemma length_fisher_yates [simp]: "length (fisher_yates pick n xs) = length xs"
  by (induction n arbitrary: xs) simp_all

lemma mset_fisher_yates:
  "n < length xs \<Longrightarrow> (\<And>i. 1 \<le> i \<Longrightarrow> i \<le> n \<Longrightarrow> pick i \<le> i) \<Longrightarrow>
   mset (fisher_yates pick n xs) = mset xs"
proof (induction n arbitrary: xs)
  case 0
  then show ?case by simp
next
  case (Suc n)
  have p: "pick (Suc n) \<le> Suc n"
    using Suc.prems(2) [of "Suc n"] by simp
  have "mset (xs[Suc n := xs ! pick (Suc n), pick (Suc n) := xs ! Suc n]) = mset xs"
    using Suc.prems(1) p by (simp add: mset_swap)
  moreover have "mset (fisher_yates pick n (xs[Suc n := xs ! pick (Suc n), pick (Suc n) := xs ! Suc n]))
      = mset (xs[Suc n := xs ! pick (Suc n), pick (Suc n) := xs ! Suc n])"
    using Suc.prems by (intro Suc.IH) simp_all
  ultimately show ?case by simp
qed

lemma shuffle_loop_elems:
  assumes "n < len (cells h a)"
    and "\<And>k. k < n \<Longrightarrow> 0 \<le> nth_value rnd g k \<and> nth_value rnd g k < 1"
  shows "len (cells (fst (shuffle_loop rnd a n h g)) a) = len (cells h a)
       \<and> elems (cells (fst (shuffle_loop rnd a n h g)) a)
           = fisher_yates (\<lambda>i. nat \<lfloor>nth_value rnd g (n - i) * (real i + 1)\<rfloor>) n
               (elems (cells h a))"
  using assms
proof (induction n arbitrary: h g)
  case 0
  then show ?case by simp
next
  case (Suc n)
  define r where "r = fst (rnd g)"
  define g' where "g' = snd (rnd g)"
  define j where "j = \<lfloor>r * (real_of_int (int (Suc n)) + 1)\<rfloor>"
  define h' where "h' = swap a (int (Suc n)) j h"
  have r: "0 \<le> r" "r < 1"
    using Suc.prems(2) [of 0] by (simp_all add: r_def nth_value_0)
  have j: "0 \<le> j" "j \<le> int (Suc n)"
    unfolding j_def using floor_pick_range [OF r, of "int (Suc n)"] by simp_all
  have step: "shuffle_loop rnd a (Suc n) h g = shuffle_loop rnd a n h' g'"
    by (simp add: Let_def split_beta h'_def j_def r_def g'_def)
  have inside: "len (cells h' a) = len (cells h a)"
    "elems (cells h' a) = (elems (cells h a))[Suc n := elems (cells h a) ! nat j,
                               nat j := elems (cells h a) ! Suc n]"
    unfolding h'_def using swap_inside [of "int (Suc n)" h a j] Suc.prems(1) j
    by (simp_all del: of_nat_Suc)
  have draws: "0 \<le> nth_value rnd g' k \<and> nth_value rnd g' k < 1" if "k < n" for k
    using Suc.prems(2) [of "Suc k"] that by (simp add: nth_value_Suc g'_def)
  have ih: "len (cells (fst (shuffle_loop rnd a n h' g')) a) = len (cells h' a)
       \<and> elems (cells (fst (shuffle_loop rnd a n h' g')) a)
           = fisher_yates (\<lambda>i. nat \<lfloor>nth_value rnd g' (n - i) * (real i + 1)\<rfloor>) n
               (elems (cells h' a))"
    using Suc.prems(1) inside(1) draws by (intro Suc.IH) simp_all
  have same: "fisher_yates (\<lambda>i. nat \<lfloor>nth_value rnd g' (n - i) * (real i + 1)\<rfloor>) n ys
      = fisher_yates (\<lambda>i. nat \<lfloor>nth_value rnd g (Suc n - i) * (real i + 1)\<rfloor>) n ys" for ys :: "'a option list"
    by (rule fisher_yates_cong) (simp add: Suc_diff_le nth_value_Suc g'_def)
  have jn: "nat \<lfloor>nth_value rnd g (Suc n - Suc n) * (real (Suc n) + 1)\<rfloor> = nat j"
    by (simp add: j_def r_def nth_value_0)
  show ?case
    unfolding step using ih inside same jn by (simp del: of_nat_Suc)
qed


lemma mulberry32_nth_value_range:
  "0 \<le> nth_value mulberry32_next g k \<and> nth_value mulberry32_next g k < 1"
  using mulberry32_next_range by (simp add: nth_value_def)

lemma mulberry32_next_42: "mulberry32_next 42 = (645430239 / 1073741824, 1831565855)"
  by (simp add: mulberry32_next_def Let_def)

lemma mulberry32_next_42': "mulberry32_next 1831565855 = (962696645 / 2147483648, 3663131668)"
  by (simp add: mulberry32_next_def Let_def)

lemmas shuffle_eval =
  shuffle_def alloc_def spread_def of_list_def mulberry32_def swap_def assign_def put_def
  elems_def Let_def upt_rec numeral_2_eq_2

section \<open>Properties of shuffle\<close>

lemma shuffle_unfold:
  "shuffle arr rnd h g =
     (fresh h,
      fst (shuffle_loop rnd (fresh h) (len (cells h arr) - 1)
             \<lparr>cells = (cells h)(fresh h := spread (cells h arr)), fresh = Suc (fresh h)\<rparr> g),
      after_calls rnd (len (cells h arr) - 1) g)"
  by (simp add: shuffle_def alloc_def Let_def split_beta prod_eq_iff shuffle_loop_source)

lemma shuffle_pick_bound:
  assumes "\<forall>k < len (cells h arr) - 1. 0 \<le> nth_value rnd g k \<and> nth_value rnd g k < 1"
  shows "\<forall>i. 1 \<le> i \<and> i < len (cells h arr) \<longrightarrow>
           nat \<lfloor>nth_value rnd g (len (cells h arr) - 1 - i) * (real i + 1)\<rfloor> \<le> i"
proof (intro allI impI)
  fix i
  assume i: "1 \<le> i \<and> i < len (cells h arr)"
  then have "len (cells h arr) - 1 - i < len (cells h arr) - 1"
    by linarith
  then have "0 \<le> nth_value rnd g (len (cells h arr) - 1 - i)"
    "nth_value rnd g (len (cells h arr) - 1 - i) < 1"
    using assms by simp_all
  from floor_pick_range [OF this, of "int i"]
  show "nat \<lfloor>nth_value rnd g (len (cells h arr) - 1 - i) * (real i + 1)\<rfloor> \<le> i"
    by simp
qed

lemma shuffle_result_elems:
  assumes "\<forall>k < len (cells h arr) - 1. 0 \<le> nth_value rnd g k \<and> nth_value rnd g k < 1"
  shows "elems (cells (fst (shuffle_loop rnd (fresh h) (len (cells h arr) - 1)
             \<lparr>cells = (cells h)(fresh h := spread (cells h arr)), fresh = Suc (fresh h)\<rparr> g))
           (fresh h))
       = fisher_yates
           (\<lambda>i. nat \<lfloor>nth_value rnd g (len (cells h arr) - 1 - i) * (real i + 1)\<rfloor>)
           (len (cells h arr) - 1) (elems (cells h arr))"
proof (cases "len (cells h arr) = 0")
  case True
  then show ?thesis
    by (simp add: elems_def)
next
  case False
  define h1 where
    "h1 = \<lparr>cells = (cells h)(fresh h := spread (cells h arr)), fresh = Suc (fresh h)\<rparr>"
  have c1: "cells h1 (fresh h) = spread (cells h arr)"
    by (simp add: h1_def)
  have n: "len (cells h arr) - 1 < len (cells h1 (fresh h))"
    using False by (simp add: c1)
  have draws: "0 \<le> nth_value rnd g k \<and> nth_value rnd g k < 1"
    if "k < len (cells h arr) - 1" for k
    using assms that by simp
  show ?thesis
    unfolding h1_def [symmetric] using shuffle_loop_elems [OF n draws] by (simp add: c1)
qed

lemma shuffle_result_mset:
  assumes "\<forall>k < len (cells h arr) - 1. 0 \<le> nth_value rnd g k \<and> nth_value rnd g k < 1"
  shows "mset (elems (cells (fst (shuffle_loop rnd (fresh h) (len (cells h arr) - 1)
             \<lparr>cells = (cells h)(fresh h := spread (cells h arr)), fresh = Suc (fresh h)\<rparr> g))
           (fresh h)))
       = mset (elems (cells h arr))"
proof (cases "len (cells h arr) = 0")
  case True
  then show ?thesis
    by (simp add: elems_def)
next
  case False
  have "mset (fisher_yates
           (\<lambda>i. nat \<lfloor>nth_value rnd g (len (cells h arr) - 1 - i) * (real i + 1)\<rfloor>)
           (len (cells h arr) - 1) (elems (cells h arr))) = mset (elems (cells h arr))"
    using False shuffle_pick_bound [OF assms] by (intro mset_fisher_yates) simp_all
  then show ?thesis
    by (simp only: shuffle_result_elems [OF assms])
qed

text \<open>
  A source that gives a value outside \<open>[0, 1)\<close> can pick an index beyond the end, and
  then the writes extend the copy: with the value \<open>1.5\<close> the array \<open>[1, 2]\<close> becomes
  \<open>[1, undefined, (hole), 2]\<close>. The claims on \<open>shuffle\<close> as a permutation are therefore
  about random sources in the sense of the specification, with values in \<open>[0, 1)\<close>, as
  the generator of \<open>mulberry32\<close> is, the only source that the program passes.
\<close>

lemma shuffle_source_out_of_range:
  "fst (shuffled [1, 2 :: nat] (\<lambda>g. (3 / 2, g)) ()) = [Some 1, None, None, Some 2]"
  by (simp add: shuffled_def shuffle_eval numeral_3_eq_3)



text \<open>
  Claim C7. \<open>shuffle\<close> does not mutate its input: whatever the random source gives (also
  outside \<open>[0, 1)\<close>, where writes extend the copy), the array it returns is a new one, and
  after the call the input array, like every array that existed before the call, is as
  it was.
\<close>

theorem shuffle_keeps_input:
  assumes "arr < fresh h"
  shows "(let (a, h', g') = shuffle arr rnd h g
          in cells h' arr = cells h arr \<and> a \<noteq> arr
           \<and> (\<forall>p < fresh h. cells h' p = cells h p))"
  using assms by (simp add: shuffle_unfold shuffle_loop_frame)

theorem shuffle_keeps_input_witness:
  "(0 :: nat) < fresh \<lparr>cells = (\<lambda>_. of_list [1, 2, 3 :: nat]), fresh = 1\<rparr>
   \<and> (let (a, h', g') =
             shuffle 0 mulberry32_next \<lparr>cells = (\<lambda>_. of_list [1, 2, 3 :: nat]), fresh = 1\<rparr>
               (mulberry32 42)
        in cells h' 0 = of_list [1, 2, 3] \<and> a \<noteq> 0)
   \<and> (let (a, h', g') =
             shuffle 0 mulberry32_next \<lparr>cells = (\<lambda>_. of_list [1, 2, 3 :: nat]), fresh = 1\<rparr>
               (mulberry32 42)
        in elems (cells h' 0) = [Some 1, Some 2, Some 3]
         \<and> elems (cells h' a) = [Some 3, Some 1, Some 2])"
proof -
  let ?h = "\<lparr>cells = (\<lambda>_. of_list [1, 2, 3 :: nat]), fresh = 1\<rparr>"
  have hyp: "(0 :: nat) < fresh ?h"
    by simp
  have b: "(let (a, h', g') = shuffle 0 mulberry32_next ?h (mulberry32 42)
        in cells h' 0 = of_list [1, 2, 3] \<and> a \<noteq> 0)"
    using shuffle_keeps_input [OF hyp, of mulberry32_next "mulberry32 42"]
    by (simp add: Let_def split_beta)
  have c: "(let (a, h', g') = shuffle 0 mulberry32_next ?h (mulberry32 42)
        in elems (cells h' 0) = [Some 1, Some 2, Some 3]
         \<and> elems (cells h' a) = [Some 3, Some 1, Some 2])"
    by (simp add: shuffle_eval mulberry32_next_42 mulberry32_next_42')
  show ?thesis
    by (rule conjI [OF hyp conjI [OF b c]])
qed

text \<open>
  Claim C3. \<open>shuffle\<close> is deterministic in its random source. Take two runs with the
  generator of \<open>mulberry32\<close> for the same seed, each with a generator of its own, on inputs
  with the same elements, in whatever stores (so also one after the other in one store):
  the arrays they return have the same elements in the same order, and the two
  generators end in the same state; the values a generator gives depend on the seed and
  the number of calls only.
\<close>

theorem shuffle_deterministic:
  assumes "elems (cells h1 arr1) = elems (cells h2 arr2)"
  shows "(let (a1, h1', g1) = shuffle arr1 mulberry32_next h1 (mulberry32 seed);
              (a2, h2', g2) = shuffle arr2 mulberry32_next h2 (mulberry32 seed)
          in elems (cells h1' a1) = elems (cells h2' a2) \<and> g1 = g2)"
proof -
  have "length (elems (cells h1 arr1)) = length (elems (cells h2 arr2))"
    using assms by simp
  then have n: "len (cells h1 arr1) = len (cells h2 arr2)"
    by simp
  have r: "\<forall>k < len (cells h arr) - 1. 0 \<le> nth_value mulberry32_next (mulberry32 seed) k
      \<and> nth_value mulberry32_next (mulberry32 seed) k < 1" for h :: "'a heap" and arr
    using mulberry32_nth_value_range by blast
  show ?thesis
    using shuffle_result_elems [OF r, of h1 arr1] shuffle_result_elems [OF r, of h2 arr2] assms n
    by (simp add: shuffle_unfold)
qed

theorem shuffle_deterministic_witness:
  "elems (cells \<lparr>cells = (\<lambda>_. of_list [1, 2, 3 :: nat]), fresh = 1\<rparr> 0)
     = elems (cells \<lparr>cells = (\<lambda>_. of_list [7, 8])(3 := of_list [1, 2, 3 :: nat]), fresh = 5\<rparr> 3)
   \<and> (let (a1, h1', g1) =
             shuffle 0 mulberry32_next \<lparr>cells = (\<lambda>_. of_list [1, 2, 3 :: nat]), fresh = 1\<rparr>
               (mulberry32 42);
            (a2, h2', g2) =
             shuffle 3 mulberry32_next
               \<lparr>cells = (\<lambda>_. of_list [7, 8])(3 := of_list [1, 2, 3 :: nat]), fresh = 5\<rparr>
               (mulberry32 42)
        in elems (cells h1' a1) = elems (cells h2' a2) \<and> g1 = g2)
   \<and> (let (a2, h2', g2) =
             shuffle 3 mulberry32_next
               \<lparr>cells = (\<lambda>_. of_list [7, 8])(3 := of_list [1, 2, 3 :: nat]), fresh = 5\<rparr>
               (mulberry32 42)
        in elems (cells h2' a2) = [Some 3, Some 1, Some 2] \<and> a2 = 5)"
proof -
  let ?h1 = "\<lparr>cells = (\<lambda>_. of_list [1, 2, 3 :: nat]), fresh = 1\<rparr>"
  let ?h2 = "\<lparr>cells = (\<lambda>_. of_list [7, 8])(3 := of_list [1, 2, 3 :: nat]), fresh = 5\<rparr>"
  have hyp: "elems (cells ?h1 0) = elems (cells ?h2 3)"
    by simp
  have b: "(let (a1, h1', g1) = shuffle 0 mulberry32_next ?h1 (mulberry32 42);
            (a2, h2', g2) = shuffle 3 mulberry32_next ?h2 (mulberry32 42)
        in elems (cells h1' a1) = elems (cells h2' a2) \<and> g1 = g2)"
    using hyp by (rule shuffle_deterministic)
  have c: "(let (a2, h2', g2) = shuffle 3 mulberry32_next ?h2 (mulberry32 42)
        in elems (cells h2' a2) = [Some 3, Some 1, Some 2] \<and> a2 = 5)"
    by (simp add: shuffle_eval mulberry32_next_42 mulberry32_next_42')
  show ?thesis
    by (rule conjI [OF hyp conjI [OF b c]])
qed

section \<open>Properties of loadDict\<close>

lemma rev_split_while: "rev xs = rev (dropWhile P xs) @ rev (takeWhile P xs)"
  by (metis rev_append takeWhile_dropWhile_id)

lemma trim_prefix: "\<exists>w. dropWhile isWhite s = trim s @ w"
proof -
  have "rev (rev (dropWhile isWhite s))
      = rev (dropWhile isWhite (rev (dropWhile isWhite s)))
        @ rev (takeWhile isWhite (rev (dropWhile isWhite s)))"
    by (rule rev_split_while)
  then have "dropWhile isWhite s = trim s @ rev (takeWhile isWhite (rev (dropWhile isWhite s)))"
    by (simp only: trim_def rev_rev_ident)
  then show ?thesis ..
qed

lemma trim_hd: "trim s \<noteq> [] \<Longrightarrow> \<not> isWhite (hd (trim s))"
proof -
  assume ne: "trim s \<noteq> []"
  obtain w where w: "dropWhile isWhite s = trim s @ w"
    using trim_prefix by blast
  then have "dropWhile isWhite s \<noteq> []"
    using ne by simp
  then have "\<not> isWhite (hd (dropWhile isWhite s))"
    by (rule hd_dropWhile)
  then show ?thesis
    using w ne by simp
qed


lemma trim_idem: "trim (trim s) = trim s"
proof (cases "trim s = []")
  case True
  have "trim [] = []"
    by (simp add: trim_def)
  then show ?thesis
    by (simp only: True)
next
  case False
  have 1: "dropWhile isWhite (trim s) = trim s"
    using trim_hd [OF False] by (simp add: dropWhile_eq_self_iff)
  have "rev (trim s) = dropWhile isWhite (rev (dropWhile isWhite s))"
    by (simp add: trim_def)
  then have 2: "dropWhile isWhite (rev (trim s)) = rev (trim s)"
    by (simp add: dropWhile_idem)
  have "trim (trim s) = rev (dropWhile isWhite (rev (dropWhile isWhite (trim s))))"
    by (simp add: trim_def)
  then show ?thesis
    by (simp add: 1 2)
qed


lemma loadDict_ok:
  assumes "fetch url = Inr res" "ok res" "body res = Some json"
  shows "loadDict fetch url =
     (let ws = (case field json (ascii ''words'') of Some (JArr ws) \<Rightarrow> ws | _ \<Rightarrow> []);
          cleaned = filter (\<lambda>w. w \<noteq> []) (map (\<lambda>w. trim (toString w)) ws)
      in if cleaned = [] then Inl (Error (dict_empty url))
         else Inr \<lparr>name = (case field json (ascii ''name'') of Some (JStr n) \<Rightarrow> n
                            | _ \<Rightarrow> [0x8BCD, 0x5E93]),
                   words = cleaned\<rparr>)"
  using assms by (simp add: loadDict_def Let_def)

lemma loadDict_words:
  assumes "loadDict fetch url = Inr d"
  shows "words d \<noteq> [] \<and> (\<forall>w \<in> set (words d). w \<noteq> [] \<and> trim w = w)"
proof -
  obtain res where res: "fetch url = Inr res"
    using assms by (cases "fetch url") (simp_all add: loadDict_def)
  have ok: "ok res"
    using assms res by (cases "ok res") (simp_all add: loadDict_def)
  obtain json where json: "body res = Some json"
    using assms res ok by (cases "body res") (simp_all add: loadDict_def)
  define ws where "ws = (case field json (ascii ''words'') of Some (JArr ws) \<Rightarrow> ws | _ \<Rightarrow> [])"
  have d: "words d = filter (\<lambda>w. w \<noteq> []) (map (\<lambda>w. trim (toString w)) ws)"
     and ne: "filter (\<lambda>w. w \<noteq> []) (map (\<lambda>w. trim (toString w)) ws) \<noteq> []"
    using assms unfolding loadDict_ok [of fetch url res json, OF res ok json] ws_def [symmetric] Let_def
    by (auto split: if_splits)
  show ?thesis
    using ne unfolding d by (auto simp: trim_idem)
qed


text \<open>
  Claim C5. When the response is a success and its body is JSON whose \<open>words\<close> field is
  the empty array, or is not an array (also when it is missing), \<open>loadDict\<close> throws the
  error with the message \<open>\<^verbatim>\<open>empty list: URL\<close>\<close> and returns no word list.
\<close>

theorem loadDict_empty_words:
  assumes "fetch url = Inr res" "ok res" "body res = Some json"
    and "field json (ascii ''words'') = Some (JArr [])
         \<or> (\<forall>ws. field json (ascii ''words'') \<noteq> Some (JArr ws))"
  shows "loadDict fetch url = Inl (Error (dict_empty url))"
proof -
  have "(case field json (ascii ''words'') of Some (JArr ws) \<Rightarrow> ws | _ \<Rightarrow> []) = []"
    using assms(4) by (auto split: option.splits json.splits)
  then show ?thesis
    unfolding loadDict_ok [of fetch url res json, OF assms(1-3)] by (simp add: Let_def)
qed

theorem loadDict_empty_words_witness:
  "loadDict (\<lambda>_. Inr \<lparr>ok = True, status = 200,
       body = Some (JObj [(ascii ''name'', JStr (ascii ''review'')), (ascii ''words'', JArr [])])\<rparr>)
     (ascii ''words/a.json'')
   = Inl (Error (dict_empty (ascii ''words/a.json'')))
   \<and> loadDict (\<lambda>_. Inr \<lparr>ok = True, status = 200,
       body = Some (JObj [(ascii ''name'', JStr (ascii ''review'')), (ascii ''words'', JStr (ascii ''ab''))])\<rparr>)
     (ascii ''words/a.json'')
   = Inl (Error (dict_empty (ascii ''words/a.json'')))"
proof -
  let ?j1 = "JObj [(ascii ''name'', JStr (ascii ''review'')), (ascii ''words'', JArr [])]"
  let ?j2 = "JObj [(ascii ''name'', JStr (ascii ''review'')), (ascii ''words'', JStr (ascii ''ab''))]"
  let ?r1 = "\<lparr>ok = True, status = 200, body = Some ?j1\<rparr>"
  let ?r2 = "\<lparr>ok = True, status = 200, body = Some ?j2\<rparr>"
  have f1: "field ?j1 (ascii ''words'') = Some (JArr [])
         \<or> (\<forall>ws. field ?j1 (ascii ''words'') \<noteq> Some (JArr ws))"
    by (simp add: field_def ascii_def)
  have f2: "field ?j2 (ascii ''words'') = Some (JArr [])
         \<or> (\<forall>ws. field ?j2 (ascii ''words'') \<noteq> Some (JArr ws))"
    by (simp add: field_def ascii_def)
  have a: "loadDict (\<lambda>_. Inr ?r1) (ascii ''words/a.json'')
      = Inl (Error (dict_empty (ascii ''words/a.json'')))"
    using loadDict_empty_words [of "\<lambda>_. Inr ?r1" "ascii ''words/a.json''" ?r1 ?j1, OF _ _ _ f1]
    by simp
  have b: "loadDict (\<lambda>_. Inr ?r2) (ascii ''words/a.json'')
      = Inl (Error (dict_empty (ascii ''words/a.json'')))"
    using loadDict_empty_words [of "\<lambda>_. Inr ?r2" "ascii ''words/a.json''" ?r2 ?j2, OF _ _ _ f2]
    by simp
  show ?thesis
    by (rule conjI [OF a b])
qed

text \<open>
  Claim C6. When the response of \<open>fetch\<close> has a status that is not a success (\<open>res.ok\<close> is
  false), \<open>loadDict\<close> throws the error with the message \<open>\<^verbatim>\<open>load failed: URL (STATUS)\<close>\<close>,
  which contains the status code in decimal; the body is not parsed: whatever the body
  is, JSON or not, the outcome is the same.
\<close>

theorem loadDict_bad_status:
  assumes "fetch url = Inr res" "\<not> ok res"
  shows "loadDict fetch url = Inl (Error (load_failed url (status res)))
       \<and> sublist (dec (status res)) (load_failed url (status res))
       \<and> (\<forall>b. loadDict (fetch(url := Inr (res\<lparr>body := b\<rparr>))) url = loadDict fetch url)"
proof -
  have "sublist (dec (status res)) (load_failed url (status res))"
    unfolding load_failed_def sublist_def
    by (rule exI [of _ "[0x52A0, 0x8F7D, 0x5931, 0x8D25, 0xFF1A] @ url @ [0xFF08]"],
        rule exI [of _ "[0xFF09]"]) simp
  then show ?thesis
    using assms by (simp add: loadDict_def)
qed

lemma dec_404: "dec 404 = ascii ''404''"
  by (simp add: dec.simps ascii_def)

theorem loadDict_bad_status_witness:
  "loadDict (\<lambda>_. Inr \<lparr>ok = False, status = 404, body = None\<rparr>) (ascii ''w.json'')
     = Inl (Error ([0x52A0, 0x8F7D, 0x5931, 0x8D25, 0xFF1A] @ ascii ''w.json'' @ [0xFF08]
                   @ ascii ''404'' @ [0xFF09]))
   \<and> sublist (ascii ''404'') (load_failed (ascii ''w.json'') 404)
   \<and> loadDict ((\<lambda>_. Inr \<lparr>ok = False, status = 404, body = None\<rparr>)
        (ascii ''w.json'' := Inr (\<lparr>ok = False, status = 404, body = None\<rparr>
           \<lparr>body := Some (JObj [(ascii ''words'', JArr [JStr (ascii ''ab'')])])\<rparr>)))
        (ascii ''w.json'')
     = loadDict (\<lambda>_. Inr \<lparr>ok = False, status = 404, body = None\<rparr>) (ascii ''w.json'')"
  using loadDict_bad_status [of "\<lambda>_. Inr \<lparr>ok = False, status = 404, body = None\<rparr>"
      "ascii ''w.json''" "\<lparr>ok = False, status = 404, body = None\<rparr>"]
  by (simp add: dec_404 load_failed_def)



section \<open>Properties of the deck\<close>

lemma mset_map_Some:
  assumes "mset zs = mset (map Some xs)"
  shows "\<exists>ys. zs = map Some ys \<and> mset ys = mset xs"
proof (intro exI conjI)
  have "set zs = set (map Some xs)"
    using assms by (rule mset_eq_setD)
  then have "\<forall>z \<in> set zs. Some (the z) = z"
    by auto
  then show "zs = map Some (map the zs)"
    by (simp add: map_idI)
  have "mset (map the zs) = image_mset the (mset (map Some xs))"
    using assms by (metis mset_map)
  then show "mset (map the zs) = mset xs"
    by (simp add: image_mset.compositionality comp_def)
qed

lemma shuffled_mulberry32:
  "\<exists>ys. fst (shuffled ws mulberry32_next g) = map Some ys \<and> mset ys = mset ws"
proof -
  let ?h = "\<lparr>cells = (\<lambda>_. of_list ws), fresh = 1\<rparr>"
  have r: "\<forall>k < len (cells ?h 0) - 1.
      0 \<le> nth_value mulberry32_next g k \<and> nth_value mulberry32_next g k < 1"
    using mulberry32_nth_value_range by blast
  have "mset (fst (shuffled ws mulberry32_next g)) = mset (map Some ws)"
    using shuffle_result_mset [OF r]
    by (simp add: shuffled_def shuffle_unfold elems_of_list)
  then show ?thesis
    by (rule mset_map_Some)
qed

lemma resetDeck_fields [simp]:
  "usedRef (resetDeck env ws s) = {}"
  "seeds (resetDeck env ws s) = Suc (seeds s)"
  "word (resetDeck env ws s) = word s"
  "wordColor (resetDeck env ws s) = wordColor s"
  by (simp_all add: resetDeck_def Let_def)

lemma resetDeck_queue:
  "\<exists>ys. queueRef (resetDeck env ws s) = map Some ys \<and> mset ys = mset ws"
  using shuffled_mulberry32 by (simp add: resetDeck_def Let_def)

lemma loop_all_used:
  "\<forall>x \<in> set q. has used x \<Longrightarrow> dealNext_loop used q = (None, [])"
  by (induction q) simp_all

lemma loop_found:
  "\<forall>x \<in> set pre. has used x \<Longrightarrow> \<not> has used w \<Longrightarrow>
   dealNext_loop used (pre @ w # rest) = (w, rest)"
  by (induction pre) simp_all

lemma has_Some [simp]: "has used (Some w) \<longleftrightarrow> w \<in> used"
  by (simp add: has_def)

lemma truthy_Some [simp]: "truthy (Some w) \<longleftrightarrow> w \<noteq> []"
  by (simp add: truthy_def)

lemma truthy_None [simp]: "\<not> truthy None"
  by (simp add: truthy_def)

lemma dealNext_deals:
  assumes "ws \<noteq> []" "queueRef s = map Some (pre @ w # rest)" "set pre \<subseteq> usedRef s"
    "w \<notin> usedRef s" "w \<noteq> []"
  shows "dealNext env ws c (Suc depth) saltOverride s =
           Some (s\<lparr>queueRef := map Some rest, usedRef := insert w (usedRef s),
                   word := Some w, wordColor := pickColor w (case saltOverride of Some n \<Rightarrow> n
                     | None \<Rightarrow> flipKey c + correct c * 3 + wrong c * 7)\<rparr>)"
proof -
  have "dealNext_loop (usedRef s) (map Some pre @ Some w # map Some rest) = (Some w, map Some rest)"
    using assms(3,4) by (intro loop_found) auto
  then have "dealNext_loop (usedRef s) (queueRef s) = (Some w, map Some rest)"
    by (simp add: assms(2))
  then show ?thesis
    using assms(1,2,5) by (simp add: Let_def)
qed


lemma dealNext_step:
  assumes "deck_inv ws s dealt" "[] \<notin> set ws" "set dealt \<noteq> set ws"
  shows "\<exists>w s'. dealNext env ws c (Suc depth) saltOverride s = Some s' \<and> word s' = Some w
           \<and> deck_inv ws s' (dealt @ [w]) \<and> seeds s' = seeds s"
proof -
  from assms(1) obtain q where q: "queueRef s = map Some q" "set q \<subseteq> set ws"
      "set ws \<subseteq> set dealt \<union> set q"
    and u: "usedRef s = set dealt" and d: "distinct dealt" and sub: "set dealt \<subseteq> set ws"
    by (auto simp: deck_inv_def)
  from assms(3) sub obtain x where x: "x \<in> set ws" "x \<notin> set dealt"
    by blast
  then have "\<exists>y \<in> set q. y \<notin> set dealt"
    using q(3) by blast
  then obtain pre w rest where sp: "q = pre @ w # rest" "w \<notin> set dealt"
      "\<forall>y \<in> set pre. \<not> y \<notin> set dealt"
    using split_list_first_prop [of q "\<lambda>y. y \<notin> set dealt"] by blast
  have w: "w \<in> set ws"
    using q(2) sp(1) by auto
  then have wne: "w \<noteq> []"
    using assms(2) by auto
  have ws: "ws \<noteq> []"
    using x(1) by auto
  let ?s' = "s\<lparr>queueRef := map Some rest, usedRef := insert w (usedRef s),
                word := Some w, wordColor := pickColor w (case saltOverride of Some n \<Rightarrow> n
                     | None \<Rightarrow> flipKey c + correct c * 3 + wrong c * 7)\<rparr>"
  have "dealNext env ws c (Suc depth) saltOverride s = Some ?s'"
    using ws q(1) sp u wne by (intro dealNext_deals) auto
  moreover have "deck_inv ws ?s' (dealt @ [w])"
    unfolding deck_inv_def using q sp u d sub w by auto
  ultimately show ?thesis
    by auto
qed

lemma deals_in_cycle:
  assumes "deck_inv ws s dealt" "[] \<notin> set ws" "length dealt + length calls \<le> card (set ws)"
  shows "\<exists>new s'. deals env ws (Suc depth) calls s = Some (map Some new, s')
           \<and> deck_inv ws s' (dealt @ new) \<and> length new = length calls \<and> seeds s' = seeds s"
  using assms
proof (induction calls arbitrary: s dealt)
  case Nil
  then show ?case by simp
next
  case (Cons call calls)
  have "distinct dealt" "set dealt \<subseteq> set ws"
    using Cons.prems(1) by (simp_all add: deck_inv_def)
  then have "card (set dealt) = length dealt"
    by (simp add: distinct_card)
  then have "card (set dealt) < card (set ws)"
    using Cons.prems(3) by simp
  then have "set dealt \<noteq> set ws"
    by auto
  from dealNext_step [OF Cons.prems(1,2) this, of env "fst call" depth "snd call"]
  obtain w s1 where s1: "dealNext env ws (fst call) (Suc depth) (snd call) s = Some s1"
      "word s1 = Some w" "deck_inv ws s1 (dealt @ [w])" "seeds s1 = seeds s"
    by blast
  have "length (dealt @ [w]) + length calls \<le> card (set ws)"
    using Cons.prems(3) by simp
  from Cons.IH [OF s1(3) Cons.prems(2) this]
  obtain new s' where n: "deals env ws (Suc depth) calls s1 = Some (map Some new, s')"
      "deck_inv ws s' ((dealt @ [w]) @ new)" "length new = length calls" "seeds s' = seeds s1"
    by blast
  have "deals env ws (Suc depth) (call # calls) s = Some (map Some (w # new), s')"
    using s1(1,2) n(1) by simp
  moreover have "deck_inv ws s' (dealt @ (w # new))"
    using n(2) by simp
  ultimately show ?case
    using n(3,4) s1(4) by (intro exI [of _ "w # new"] exI [of _ s']) simp
qed

lemma resetDeck_inv: "deck_inv ws (resetDeck env ws s) []"
proof -
  obtain ys where "queueRef (resetDeck env ws s) = map Some ys" "mset ys = mset ws"
    using resetDeck_queue by blast
  moreover from this have "set ys = set ws"
    by (metis mset_eq_setD)
  ultimately show ?thesis
    by (auto simp: deck_inv_def)
qed

lemma full_cycle:
  assumes "[] \<notin> set ws" "length calls = card (set ws)"
  shows "\<exists>shown s'. deals env ws (Suc depth) calls (resetDeck env ws s) = Some (map Some shown, s')
           \<and> distinct shown \<and> set shown = set ws \<and> usedRef s' = set ws
           \<and> seeds s' = Suc (seeds s)"
proof -
  have "length [] + length calls \<le> card (set ws)"
    using assms(2) by simp
  from deals_in_cycle [OF resetDeck_inv assms(1) this]
  obtain shown s' where
    r: "deals env ws (Suc depth) calls (resetDeck env ws s) = Some (map Some shown, s')"
      "deck_inv ws s' shown" "length shown = length calls"
      "seeds s' = seeds (resetDeck env ws s)"
    by fastforce
  have d: "distinct shown" "set shown \<subseteq> set ws" "usedRef s' = set shown"
    using r(2) by (simp_all add: deck_inv_def)
  have "card (set shown) = card (set ws)"
    using d(1) r(3) assms(2) by (simp add: distinct_card)
  then have "set shown = set ws"
    using d(2) by (simp add: card_subset_eq)
  then show ?thesis
    using r(1,4) d by auto
qed

lemma dealNext_after_reset:
  assumes "[] \<notin> set ws" "ws \<noteq> []"
  shows "\<exists>w ys. mset (w # ys) = mset ws
           \<and> queueRef (resetDeck env ws s) = map Some (w # ys)
           \<and> dealNext env ws c (Suc depth) saltOverride (resetDeck env ws s) =
               Some ((resetDeck env ws s)\<lparr>queueRef := map Some ys, usedRef := {w},
                  word := Some w, wordColor := pickColor w (case saltOverride of Some n \<Rightarrow> n
                     | None \<Rightarrow> flipKey c + correct c * 3 + wrong c * 7)\<rparr>)"
proof -
  obtain zs where zs: "queueRef (resetDeck env ws s) = map Some zs" "mset zs = mset ws"
    using resetDeck_queue by blast
  then have "zs \<noteq> []"
    using assms(2) by auto
  then obtain w ys where c: "zs = w # ys"
    by (cases zs) auto
  have "w \<in> set ws"
    using zs(2) c by (metis list.set_intros(1) mset_eq_setD)
  then have wne: "w \<noteq> []"
    using assms(1) by auto
  have "dealNext env ws c (Suc depth) saltOverride (resetDeck env ws s) =
      Some ((resetDeck env ws s)\<lparr>queueRef := map Some ys,
         usedRef := insert w (usedRef (resetDeck env ws s)),
         word := Some w, wordColor := pickColor w (case saltOverride of Some n \<Rightarrow> n
                     | None \<Rightarrow> flipKey c + correct c * 3 + wrong c * 7)\<rparr>)"
    using assms(2) zs(1) c wne by (intro dealNext_deals [where pre = "[]"]) simp_all
  then show ?thesis
    using zs c by auto
qed

lemma dealNext_empty_queue:
  "ws \<noteq> [] \<Longrightarrow> queueRef s = [] \<Longrightarrow> queueRef (resetDeck env ws s) \<noteq> [] \<Longrightarrow>
   dealNext env ws c (Suc depth) saltOverride s
     = dealNext env ws c (Suc depth) saltOverride (resetDeck env ws s)"
  by (simp add: Let_def)

lemma dealNext_returns:
  assumes "[] \<notin> set ws"
  shows "\<exists>s'. dealNext env ws c (Suc (Suc depth)) saltOverride s = Some s'"
proof (cases "ws = []")
  case True
  then show ?thesis by simp
next
  case False
  define s1 where "s1 = (if queueRef s = [] then resetDeck env ws s else s)"
  obtain nxt q where l: "dealNext_loop (usedRef s1) (queueRef s1) = (nxt, q)"
    by (cases "dealNext_loop (usedRef s1) (queueRef s1)")
  show ?thesis
  proof (cases "truthy nxt")
    case True
    then show ?thesis
      using False l by (simp add: Let_def s1_def [symmetric])
  next
    case nt: False
    define salt where "salt = (case saltOverride of Some n \<Rightarrow> n
                     | None \<Rightarrow> flipKey c + correct c * 3 + wrong c * 7)"
    have "dealNext env ws c (Suc (Suc depth)) saltOverride s
        = dealNext env ws c (Suc depth) (Some salt) (resetDeck env ws (s1\<lparr>queueRef := q\<rparr>))"
      using False l nt by (simp add: Let_def s1_def [symmetric] salt_def)
    then show ?thesis
      using dealNext_after_reset [OF assms False, of env "s1\<lparr>queueRef := q\<rparr>" c depth "Some salt"]
      by auto
  qed
qed

lemma dealNext_exhausted:
  assumes "[] \<notin> set ws" "ws \<noteq> []" "set ws \<subseteq> usedRef s" "set (queueRef s) \<subseteq> Some ` set ws"
  shows "\<exists>w ys s'. dealNext env ws c (Suc (Suc depth)) saltOverride s = Some s'
           \<and> mset (w # ys) = mset ws \<and> word s' = Some w \<and> usedRef s' = {w}
           \<and> queueRef s' = map Some ys \<and> seeds s' = Suc (seeds s)"
proof (cases "queueRef s = []")
  case True
  from dealNext_after_reset [OF assms(1,2), of env s c "Suc depth" saltOverride]
  obtain w ys where r: "mset (w # ys) = mset ws"
    "queueRef (resetDeck env ws s) = map Some (w # ys)"
    "dealNext env ws c (Suc (Suc depth)) saltOverride (resetDeck env ws s) =
               Some ((resetDeck env ws s)\<lparr>queueRef := map Some ys, usedRef := {w},
                  word := Some w, wordColor := pickColor w (case saltOverride of Some n \<Rightarrow> n
                     | None \<Rightarrow> flipKey c + correct c * 3 + wrong c * 7)\<rparr>)"
    by blast
  have "dealNext env ws c (Suc (Suc depth)) saltOverride s
      = dealNext env ws c (Suc (Suc depth)) saltOverride (resetDeck env ws s)"
    using assms(2) True r(2) by (intro dealNext_empty_queue) simp_all
  then show ?thesis
    using r by (intro exI [of _ w] exI [of _ ys]) simp
next
  case False
  have "\<forall>x \<in> set (queueRef s). has (usedRef s) x"
  proof
    fix x
    assume "x \<in> set (queueRef s)"
    then obtain y where "x = Some y" "y \<in> set ws"
      using assms(4) by auto
    then show "has (usedRef s) x"
      using assms(3) by auto
  qed
  then have l: "dealNext_loop (usedRef s) (queueRef s) = (None, [])"
    by (rule loop_all_used)
  define salt where "salt = (case saltOverride of Some n \<Rightarrow> n
                     | None \<Rightarrow> flipKey c + correct c * 3 + wrong c * 7)"
  have e: "dealNext env ws c (Suc (Suc depth)) saltOverride s
      = dealNext env ws c (Suc depth) (Some salt) (resetDeck env ws (s\<lparr>queueRef := []\<rparr>))"
    using False assms(2) l by (simp add: Let_def salt_def)
  from dealNext_after_reset [OF assms(1,2), of env "s\<lparr>queueRef := []\<rparr>" c depth "Some salt"]
  show ?thesis
    unfolding e by (elim exE conjE, intro exI) auto
qed

section \<open>Evaluation of the examples\<close>

lemma demo_seed: "computeSeed \<lparr>year = 2026, month = 10, day = 3\<rparr> 2 = 2394108270"
  by (simp add: computeSeed_def dec.simps ascii_def Let_def)

lemma demo_next: "mulberry32_next 2394108270 = (1913083357 / 4294967296, 4225674083)"
  by (simp add: mulberry32_next_def Let_def)

lemma demo_next': "mulberry32_next 4225674083 = (5418181 / 16777216, 1762272600)"
  by (simp add: mulberry32_next_def Let_def)

lemma demo_shuffled:
  "fst (shuffled [[97], [97], [98 :: 16 word]] mulberry32_next (mulberry32 2394108270))
     = [Some [98], Some [97], Some [97]]"
  by (simp add: shuffled_def shuffle_eval demo_next demo_next')

lemma demo_reset:
  "resetDeck demo_env [[97], [97], [98]] s =
     s\<lparr>usedRef := {}, queueRef := [Some [98], Some [97], Some [97]], seeds := Suc (seeds s)\<rparr>"
  by (simp add: resetDeck_def demo_env_def demo_seed demo_shuffled)

lemma demo_load:
  "loadDict (\<lambda>_. Inr \<lparr>ok = True, status = 200,
       body = Some (JObj [(ascii ''words'',
                JArr [JStr (ascii ''a''), JStr (ascii ''a''), JStr (ascii ''b'')])])\<rparr>)
     (ascii ''w.json'')
   = Inr \<lparr>name = [0x8BCD, 0x5E93], words = [[97], [97], [98]]\<rparr>"
  by (simp add: loadDict_def field_def ascii_def trim_def isWhite_def Let_def)

lemmas deal_eval = ascii_def demo_reset initial_def Let_def has_def truthy_def

text \<open>
  Why the word list must be one that \<open>loadDict\<close> returns: the test \<open>if (next)\<close> takes
  the empty string for no word at all, so with the word list \<open>[""]\<close> a call of \<open>dealNext\<close>
  resets and calls itself without end, whatever the depth allowed.
\<close>

lemma loop_not_truthy:
  "set q \<subseteq> {Some []} \<Longrightarrow> \<not> truthy (fst (dealNext_loop used q))"
  by (induction q) auto

lemma dealNext_empty_word:
  "set (queueRef s) \<subseteq> {Some []} \<Longrightarrow> dealNext env [[]] c depth saltOverride s = None"
proof (induction depth arbitrary: s saltOverride)
  case 0
  then show ?case by simp
next
  case (Suc depth)
  have r: "set (queueRef (resetDeck env [[]] t)) \<subseteq> {Some []}" for t
  proof -
    obtain ys where ys: "queueRef (resetDeck env [[]] t) = map Some ys" "mset ys = mset [[]]"
      using resetDeck_queue by blast
    then have "ys = [[]]"
      by simp
    then show ?thesis
      using ys(1) by simp
  qed
  define s1 where "s1 = (if queueRef s = [] then resetDeck env [[]] s else s)"
  have "set (queueRef s1) \<subseteq> {Some []}"
    using r Suc.prems by (simp add: s1_def)
  then have "\<not> truthy (fst (dealNext_loop (usedRef s1) (queueRef s1)))"
    by (rule loop_not_truthy)
  then show ?case
    using Suc.IH [OF r] by (simp add: Let_def split_beta s1_def [symmetric])
qed


section \<open>Claims on the deck\<close>

text \<open>
  Claim C1 as stated fails when the list has a duplicate. With the loaded word list
  \<open>a, a, b\<close> (so \<open>N = 3\<close>), from a freshly reset deck whose queue is \<open>b, a, a\<close>: the first
  two calls deal \<open>b\<close> and \<open>a\<close>; the third call finds only the second \<open>a\<close>, which is used,
  resets the deck and deals \<open>b\<close> from the new cycle. After the three calls \<open>b\<close> has been
  dealt twice and the used set is \<open>{b}\<close>, not \<open>{a, b}\<close>.
\<close>

theorem deal_cycle_counterexample:
  "map_option (usedRef \<circ> snd)
     (deals demo_env [ascii ''a'', ascii ''a'', ascii ''b''] (Suc (Suc 0))
        [(\<lparr>flipKey = 1, correct = 0, wrong = 0\<rparr>, Some 1),
         (\<lparr>flipKey = 2, correct = 1, wrong = 0\<rparr>, None),
         (\<lparr>flipKey = 3, correct = 1, wrong = 1\<rparr>, None)]
        (resetDeck demo_env [ascii ''a'', ascii ''a'', ascii ''b''] initial))
     = Some {ascii ''b''}
   \<and> {ascii ''b''} \<noteq> set [ascii ''a'', ascii ''a'', ascii ''b'']
   \<and> map_option fst
     (deals demo_env [ascii ''a'', ascii ''a'', ascii ''b''] (Suc (Suc 0))
        [(\<lparr>flipKey = 1, correct = 0, wrong = 0\<rparr>, Some 1),
         (\<lparr>flipKey = 2, correct = 1, wrong = 0\<rparr>, None),
         (\<lparr>flipKey = 3, correct = 1, wrong = 1\<rparr>, None)]
        (resetDeck demo_env [ascii ''a'', ascii ''a'', ascii ''b''] initial))
     = Some [Some (ascii ''b''), Some (ascii ''a''), Some (ascii ''b'')]"
  by (simp add: deal_eval)

text \<open>
  Claim C1, amended. Starting from a freshly reset deck with a loaded word list, making
  \<open>M\<close> calls to \<open>dealNext\<close>, where \<open>M\<close> is the number of different words in the list
  (\<open>M = N\<close>, the length, when no word occurs twice), deals every word of the list exactly
  once: the words shown are pairwise different and are the words of the list. Afterward
  the used set is the set of the words of the list, and no reset has happened in
  between. No call needs to call itself (depth 1 is enough).
\<close>

theorem deal_full_cycle:
  assumes "loadDict fetch url = Inr d" "length calls = card (set (words d))"
  shows "\<exists>shown s'.
           deals env (words d) (Suc depth) calls (resetDeck env (words d) s)
             = Some (map Some shown, s')
           \<and> distinct shown \<and> set shown = set (words d) \<and> usedRef s' = set (words d)
           \<and> seeds s' = Suc (seeds s)"
proof -
  have "[] \<notin> set (words d)"
    using loadDict_words [OF assms(1)] by auto
  then show ?thesis
    using assms(2) by (rule full_cycle)
qed

theorem deal_full_cycle_witness:
  "loadDict (\<lambda>_. Inr \<lparr>ok = True, status = 200,
       body = Some (JObj [(ascii ''words'',
                JArr [JStr (ascii ''a''), JStr (ascii ''a''), JStr (ascii ''b'')])])\<rparr>)
     (ascii ''w.json'')
     = Inr \<lparr>name = [0x8BCD, 0x5E93], words = [ascii ''a'', ascii ''a'', ascii ''b'']\<rparr>
   \<and> length [(\<lparr>flipKey = 1, correct = 0, wrong = 0\<rparr>, Some (1 :: nat)),
              (\<lparr>flipKey = 2, correct = 1, wrong = 0\<rparr>, None)]
     = card (set [ascii ''a'', ascii ''a'', ascii ''b''])
   \<and> map_option (usedRef \<circ> snd)
       (deals demo_env [ascii ''a'', ascii ''a'', ascii ''b''] (Suc 0)
          [(\<lparr>flipKey = 1, correct = 0, wrong = 0\<rparr>, Some 1),
           (\<lparr>flipKey = 2, correct = 1, wrong = 0\<rparr>, None)]
          (resetDeck demo_env [ascii ''a'', ascii ''a'', ascii ''b''] initial))
     = Some (set [ascii ''a'', ascii ''a'', ascii ''b''])
   \<and> map_option fst
       (deals demo_env [ascii ''a'', ascii ''a'', ascii ''b''] (Suc 0)
          [(\<lparr>flipKey = 1, correct = 0, wrong = 0\<rparr>, Some 1),
           (\<lparr>flipKey = 2, correct = 1, wrong = 0\<rparr>, None)]
          (resetDeck demo_env [ascii ''a'', ascii ''a'', ascii ''b''] initial))
     = Some [Some (ascii ''b''), Some (ascii ''a'')]"
proof -
  let ?d = "\<lparr>name = [0x8BCD, 0x5E93], words = [ascii ''a'', ascii ''a'', ascii ''b'']\<rparr>"
  let ?calls = "[(\<lparr>flipKey = 1, correct = 0, wrong = 0\<rparr>, Some (1 :: nat)),
                 (\<lparr>flipKey = 2, correct = 1, wrong = 0\<rparr>, None)]"
  have h1: "loadDict (\<lambda>_. Inr \<lparr>ok = True, status = 200,
       body = Some (JObj [(ascii ''words'',
                JArr [JStr (ascii ''a''), JStr (ascii ''a''), JStr (ascii ''b'')])])\<rparr>)
     (ascii ''w.json'') = Inr ?d"
    using demo_load by (simp add: ascii_def)
  have h2: "length ?calls = card (set (words ?d))"
    by (simp add: ascii_def)
  from deal_full_cycle [OF h1 h2, of demo_env 0 initial]
  obtain shown s' where
    r: "deals demo_env (words ?d) (Suc 0) ?calls (resetDeck demo_env (words ?d) initial)
          = Some (map Some shown, s')"
      "usedRef s' = set (words ?d)"
    by blast
  have a: "map_option (usedRef \<circ> snd)
       (deals demo_env [ascii ''a'', ascii ''a'', ascii ''b''] (Suc 0) ?calls
          (resetDeck demo_env [ascii ''a'', ascii ''a'', ascii ''b''] initial))
     = Some (set [ascii ''a'', ascii ''a'', ascii ''b''])"
    using r by simp
  have b: "map_option fst
       (deals demo_env [ascii ''a'', ascii ''a'', ascii ''b''] (Suc 0) ?calls
          (resetDeck demo_env [ascii ''a'', ascii ''a'', ascii ''b''] initial))
     = Some [Some (ascii ''b''), Some (ascii ''a'')]"
    by (simp add: deal_eval)
  have h2': "length ?calls = card (set [ascii ''a'', ascii ''a'', ascii ''b''])"
    using h2 by simp
  show ?thesis
    by (rule conjI [OF h1 conjI [OF h2' conjI [OF a b]]])
qed

text \<open>
  Claim C4. For a loaded word list (it is nonempty), in a state where the used set
  contains every word of the list and the queue holds nothing but words of the list,
  \<open>dealNext\<close> returns (two nested calls are enough, so no error is raised); it has reset
  the deck exactly once, and it has dealt a word \<open>w\<close> of a new cycle: the new queue was a
  permutation \<open>w # ys\<close> of the list, \<open>w\<close> is the word shown and the only used word, and
  \<open>ys\<close> is left in the queue.
\<close>

theorem dealNext_after_exhaustion:
  assumes "loadDict fetch url = Inr d" "set (words d) \<subseteq> usedRef s"
    "set (queueRef s) \<subseteq> Some ` set (words d)"
  shows "\<exists>w ys s'.
           dealNext env (words d) c (Suc (Suc depth)) saltOverride s = Some s'
           \<and> seeds s' = Suc (seeds s) \<and> mset (w # ys) = mset (words d)
           \<and> word s' = Some w \<and> usedRef s' = {w} \<and> queueRef s' = map Some ys"
proof -
  have "[] \<notin> set (words d)" "words d \<noteq> []"
    using loadDict_words [OF assms(1)] by auto
  from dealNext_exhausted [OF this assms(2,3), of env c depth saltOverride]
  show ?thesis
    by blast
qed

theorem dealNext_after_exhaustion_witness:
  "loadDict (\<lambda>_. Inr \<lparr>ok = True, status = 200,
       body = Some (JObj [(ascii ''words'',
                JArr [JStr (ascii ''a''), JStr (ascii ''a''), JStr (ascii ''b'')])])\<rparr>)
     (ascii ''w.json'')
     = Inr \<lparr>name = [0x8BCD, 0x5E93], words = [ascii ''a'', ascii ''a'', ascii ''b'']\<rparr>
   \<and> set [ascii ''a'', ascii ''a'', ascii ''b'']
       \<subseteq> usedRef \<lparr>usedRef = {ascii ''a'', ascii ''b''}, queueRef = [Some (ascii ''a'')],
            word = Some (ascii ''a''), wordColor = ascii ''#FF6B6B'', seeds = 1\<rparr>
   \<and> set (queueRef \<lparr>usedRef = {ascii ''a'', ascii ''b''}, queueRef = [Some (ascii ''a'')],
            word = Some (ascii ''a''), wordColor = ascii ''#FF6B6B'', seeds = 1\<rparr>)
       \<subseteq> Some ` set [ascii ''a'', ascii ''a'', ascii ''b'']
   \<and> map_option seeds
       (dealNext demo_env [ascii ''a'', ascii ''a'', ascii ''b'']
          \<lparr>flipKey = 3, correct = 1, wrong = 1\<rparr> (Suc (Suc 0)) None
          \<lparr>usedRef = {ascii ''a'', ascii ''b''}, queueRef = [Some (ascii ''a'')],
            word = Some (ascii ''a''), wordColor = ascii ''#FF6B6B'', seeds = 1\<rparr>)
     = Some (Suc 1)
   \<and> map_option usedRef
       (dealNext demo_env [ascii ''a'', ascii ''a'', ascii ''b'']
          \<lparr>flipKey = 3, correct = 1, wrong = 1\<rparr> (Suc (Suc 0)) None
          \<lparr>usedRef = {ascii ''a'', ascii ''b''}, queueRef = [Some (ascii ''a'')],
            word = Some (ascii ''a''), wordColor = ascii ''#FF6B6B'', seeds = 1\<rparr>)
     = Some {ascii ''b''}"
proof -
  let ?d = "\<lparr>name = [0x8BCD, 0x5E93], words = [ascii ''a'', ascii ''a'', ascii ''b'']\<rparr>"
  let ?s = "\<lparr>usedRef = {ascii ''a'', ascii ''b''}, queueRef = [Some (ascii ''a'')],
            word = Some (ascii ''a''), wordColor = ascii ''#FF6B6B'', seeds = 1\<rparr>"
  let ?c = "\<lparr>flipKey = 3, correct = 1, wrong = 1\<rparr>"
  have h1: "loadDict (\<lambda>_. Inr \<lparr>ok = True, status = 200,
       body = Some (JObj [(ascii ''words'',
                JArr [JStr (ascii ''a''), JStr (ascii ''a''), JStr (ascii ''b'')])])\<rparr>)
     (ascii ''w.json'') = Inr ?d"
    using demo_load by (simp add: ascii_def)
  have h2: "set (words ?d) \<subseteq> usedRef ?s"
    by simp
  have h3: "set (queueRef ?s) \<subseteq> Some ` set (words ?d)"
    by simp
  from dealNext_after_exhaustion [OF h1 h2 h3, of demo_env ?c 0 None]
  obtain s' where
    r: "dealNext demo_env (words ?d) ?c (Suc (Suc 0)) None ?s = Some s'"
      "seeds s' = Suc (seeds ?s)"
    by blast
  have a: "map_option seeds
       (dealNext demo_env [ascii ''a'', ascii ''a'', ascii ''b''] ?c (Suc (Suc 0)) None ?s)
     = Some (Suc 1)"
    using r by simp
  have b: "map_option usedRef
       (dealNext demo_env [ascii ''a'', ascii ''a'', ascii ''b''] ?c (Suc (Suc 0)) None ?s)
     = Some {ascii ''b''}"
    by (simp add: deal_eval)
  have h2': "set [ascii ''a'', ascii ''a'', ascii ''b''] \<subseteq> usedRef ?s"
    using h2 by simp
  have h3': "set (queueRef ?s) \<subseteq> Some ` set [ascii ''a'', ascii ''a'', ascii ''b'']"
    using h3 by simp
  show ?thesis
    by (rule conjI [OF h1 conjI [OF h2' conjI [OF h3' conjI [OF a b]]]])
qed

text \<open>
  Claim C9. \<open>dealNext\<close> always returns, for the word lists that the program can hold:
  the initial empty list, and the list of a loaded dictionary. On the empty list it
  returns at once and changes nothing. On a loaded list it returns from whatever state,
  with at most one recursive call (two nested calls are enough), because after
  \<open>resetDeck\<close> the used set is empty and the queue is a nonempty permutation \<open>w # ys\<close> of the
  list, and a call on that state deals \<open>w\<close>, the first word of the queue, without calling
  itself.
\<close>

theorem dealNext_terminates:
  assumes "loadDict fetch url = Inr d"
  shows "dealNext env [] c (Suc depth) saltOverride s = Some s
       \<and> (\<exists>s'. dealNext env (words d) c (Suc (Suc depth)) saltOverride s = Some s')
       \<and> (\<exists>w ys. queueRef (resetDeck env (words d) s) = map Some (w # ys)
              \<and> mset (w # ys) = mset (words d)
              \<and> usedRef (resetDeck env (words d) s) = {}
              \<and> map_option word
                  (dealNext env (words d) c (Suc depth) saltOverride (resetDeck env (words d) s))
                 = Some (Some w))"
proof -
  have l: "[] \<notin> set (words d)" "words d \<noteq> []"
    using loadDict_words [OF assms(1)] by auto
  have "\<exists>s'. dealNext env (words d) c (Suc (Suc depth)) saltOverride s = Some s'"
    using l(1) by (rule dealNext_returns)
  moreover from dealNext_after_reset [OF l, of env s c depth saltOverride]
  have "\<exists>w ys. queueRef (resetDeck env (words d) s) = map Some (w # ys)
              \<and> mset (w # ys) = mset (words d)
              \<and> usedRef (resetDeck env (words d) s) = {}
              \<and> map_option word
                  (dealNext env (words d) c (Suc depth) saltOverride (resetDeck env (words d) s))
                 = Some (Some w)"
    by (elim exE conjE, intro exI) auto
  ultimately show ?thesis
    by simp
qed

theorem dealNext_terminates_witness:
  "loadDict (\<lambda>_. Inr \<lparr>ok = True, status = 200,
       body = Some (JObj [(ascii ''words'',
                JArr [JStr (ascii ''a''), JStr (ascii ''a''), JStr (ascii ''b'')])])\<rparr>)
     (ascii ''w.json'')
     = Inr \<lparr>name = [0x8BCD, 0x5E93], words = [ascii ''a'', ascii ''a'', ascii ''b'']\<rparr>
   \<and> dealNext demo_env [ascii ''a'', ascii ''a'', ascii ''b'']
          \<lparr>flipKey = 3, correct = 1, wrong = 1\<rparr> (Suc (Suc 0)) None
          \<lparr>usedRef = {ascii ''a'', ascii ''b''}, queueRef = [Some (ascii ''a'')],
            word = Some (ascii ''a''), wordColor = ascii ''#FF6B6B'', seeds = 1\<rparr>
       \<noteq> None
   \<and> dealNext demo_env [ascii ''a'', ascii ''a'', ascii ''b'']
          \<lparr>flipKey = 3, correct = 1, wrong = 1\<rparr> (Suc 0) None
          \<lparr>usedRef = {ascii ''a'', ascii ''b''}, queueRef = [Some (ascii ''a'')],
            word = Some (ascii ''a''), wordColor = ascii ''#FF6B6B'', seeds = 1\<rparr>
       = None
   \<and> map_option word
        (dealNext demo_env [ascii ''a'', ascii ''a'', ascii ''b'']
          \<lparr>flipKey = 3, correct = 1, wrong = 1\<rparr> (Suc (Suc 0)) None
          \<lparr>usedRef = {ascii ''a'', ascii ''b''}, queueRef = [Some (ascii ''a'')],
            word = Some (ascii ''a''), wordColor = ascii ''#FF6B6B'', seeds = 1\<rparr>)
       = Some (Some (ascii ''b''))"
proof -
  let ?d = "\<lparr>name = [0x8BCD, 0x5E93], words = [ascii ''a'', ascii ''a'', ascii ''b'']\<rparr>"
  let ?s = "\<lparr>usedRef = {ascii ''a'', ascii ''b''}, queueRef = [Some (ascii ''a'')],
            word = Some (ascii ''a''), wordColor = ascii ''#FF6B6B'', seeds = 1\<rparr>"
  let ?c = "\<lparr>flipKey = 3, correct = 1, wrong = 1\<rparr>"
  have h1: "loadDict (\<lambda>_. Inr \<lparr>ok = True, status = 200,
       body = Some (JObj [(ascii ''words'',
                JArr [JStr (ascii ''a''), JStr (ascii ''a''), JStr (ascii ''b'')])])\<rparr>)
     (ascii ''w.json'') = Inr ?d"
    using demo_load by (simp add: ascii_def)
  from dealNext_terminates [OF h1, of demo_env ?c 0 None ?s]
  obtain s' where "dealNext demo_env (words ?d) ?c (Suc (Suc 0)) None ?s = Some s'"
    by blast
  then have a: "dealNext demo_env [ascii ''a'', ascii ''a'', ascii ''b''] ?c (Suc (Suc 0)) None ?s
      \<noteq> None"
    by simp
  have b: "dealNext demo_env [ascii ''a'', ascii ''a'', ascii ''b''] ?c (Suc 0) None ?s = None"
    by (simp add: deal_eval)
  have c: "map_option word
        (dealNext demo_env [ascii ''a'', ascii ''a'', ascii ''b''] ?c (Suc (Suc 0)) None ?s)
       = Some (Some (ascii ''b''))"
    by (simp add: deal_eval)
  show ?thesis
    by (rule conjI [OF h1 conjI [OF a conjI [OF b c]]])
qed

end
